theory Spec2Isabelle
  imports Complex_Main "HOL-Library.Word" "HOL-Library.AList"
begin

unbundle bit_operations_syntax

section \<open>Data model\<close>

text \<open>
  The embedding follows \<^verbatim>\<open>consistent.h\<close> and the implementation file of class
  \<^verbatim>\<open>Consistent\<close>.

  \<^item> A \<^verbatim>\<open>Member\<close> offers only \<^verbatim>\<open>String()\<close> and \<^verbatim>\<open>Clone()\<close>, and the registry
    \<^verbatim>\<open>members_\<close> is keyed by \<^verbatim>\<open>String()\<close>; a member object, and every \<^verbatim>\<open>Member*\<close> into the
    registry, is therefore represented by its name.
  \<^item> \<^verbatim>\<open>uint64_t\<close> is \<open>64 word\<close>, \<^verbatim>\<open>uint8_t\<close> is \<open>8 word\<close>, \<^verbatim>\<open>int\<close> is \<open>int\<close> (all values that
    occur stay inside the 32-bit range, the one narrowing cast is written out).
  \<^item> \<^verbatim>\<open>double\<close> is \<open>rat\<close>: the load factor, the average load and the ceiling are exact.
    The counters of the load map only ever hold small whole numbers and are \<open>nat\<close>.
  \<^item> Every \<^verbatim>\<open>std::unordered_map\<close> is an association list with distinct keys
    (\<open>map_of\<close> reads, \<open>AList.update\<close> writes, \<open>AList.delete\<close> erases);
    the order of the list has no counterpart in the source and no definition depends on
    it, except through \<open>sort\<close>.
  \<^item> The reader/writer lock is not modelled: every operation runs alone, and taking the
    lock (also where \<^verbatim>\<open>Add\<close> holds it and \<^verbatim>\<open>CalculatePartitionsWithNewMember\<close> takes it
    again) has no effect.
  \<^item> An exception is a value of type \<open>error\<close>.
\<close>

type_synonym u8 = "8 word"
type_synonym u64 = "64 word"
type_synonym member = string

datatype error =
    InvalidArgument               \<comment> \<open>\<^verbatim>\<open>std::invalid_argument\<close>\<close>
  | InsufficientMemberCount       \<comment> \<open>\<^verbatim>\<open>InsufficientMemberCountException\<close>\<close>
  | InsufficientSpace             \<comment> \<open>\<^verbatim>\<open>InsufficientSpaceException\<close>\<close>
  | OutOfRange                    \<comment> \<open>\<^verbatim>\<open>std::out_of_range\<close> of \<^verbatim>\<open>unordered_map::at\<close>\<close>
  | UndefinedBehaviour            \<comment> \<open>null dereference or out-of-bounds read\<close>

record Config =
  hasher :: "(u8 list \<Rightarrow> u64) option"
  partition_count :: int
  replication_factor :: int
  load :: rat

record Consistent =
  config_s :: Config
  sorted_set_s :: "u64 list"
  partition_count_s :: u64
  loads_s :: "(string \<times> nat) list"
  members_s :: "member list"
  partitions_s :: "(int \<times> member) list"
  ring_s :: "(u64 \<times> member) list"
  cached_members_s :: "member list"
  members_dirty_s :: bool

definition DEFAULT_PARTITION_COUNT :: int where "DEFAULT_PARTITION_COUNT = 271"
definition DEFAULT_REPLICATION_FACTOR :: int where "DEFAULT_REPLICATION_FACTOR = 20"
definition DEFAULT_LOAD :: rat where "DEFAULT_LOAD = 5 / 4"

section \<open>Hashers\<close>

text \<open>\<^verbatim>\<open>FNVHasher::Sum64\<close>: XOR the byte in, then multiply, modulo \<open>2 ^ 64\<close>.\<close>

definition FNV_OFFSET_BASIS :: u64 where "FNV_OFFSET_BASIS = 14695981039346656037"
definition FNV_PRIME :: u64 where "FNV_PRIME = 1099511628211"

definition FNV_Sum64 :: "u8 list \<Rightarrow> u64" where
  "FNV_Sum64 data = fold (\<lambda>byte hash. (hash XOR ucast byte) * FNV_PRIME) data FNV_OFFSET_BASIS"

text \<open>The \<^verbatim>\<open>std::string\<close> overload of \<^verbatim>\<open>Sum64\<close> hashes the bytes of the string.\<close>

definition string_bytes :: "string \<Rightarrow> u8 list" where
  "string_bytes s = map of_char s"

text \<open>\<^verbatim>\<open>config_.hasher->Sum64\<close>; the constructor has rejected a null hasher.\<close>

definition Sum64 :: "Consistent \<Rightarrow> u8 list \<Rightarrow> u64" where
  "Sum64 s data = (case hasher (config_s s) of Some h \<Rightarrow> h data | None \<Rightarrow> 0)"

section \<open>Virtual-node keys\<close>

text \<open>\<^verbatim>\<open>std::to_string\<close> of a non-negative \<^verbatim>\<open>int\<close>.\<close>

function to_string :: "nat \<Rightarrow> string" where
  "to_string n =
     (if n < 10 then [char_of (48 + n)]
      else to_string (n div 10) @ [char_of (48 + n mod 10)])"
  by pat_completeness auto
termination
  by (relation "measure (\<lambda>n. n)") auto

declare to_string.simps [simp del]

definition BuildVirtualNodeKey :: "string \<Rightarrow> nat \<Rightarrow> u8 list" where
  "BuildVirtualNodeKey member_str index =
     string_bytes member_str @ string_bytes (to_string index)"

text \<open>The hashes of the \<open>replication_factor\<close> virtual nodes of a name, in loop order.\<close>

definition vnode_hashes :: "Consistent \<Rightarrow> string \<Rightarrow> u64 list" where
  "vnode_hashes s name =
     map (\<lambda>i. Sum64 s (BuildVirtualNodeKey name i)) [0 ..< nat (replication_factor (config_s s))]"

section \<open>Sorted array\<close>

text \<open>
  \<^verbatim>\<open>std::lower_bound\<close> on an ascending range, as the distance from \<^verbatim>\<open>begin()\<close>:
  the number of leading elements below the value.
\<close>

definition lower_bound :: "u64 list \<Rightarrow> u64 \<Rightarrow> nat" where
  "lower_bound xs v = length (takeWhile (\<lambda>x. x < v) xs)"

text \<open>
  The start of a ring walk, as written before each of the three walks of the source:
  \<^verbatim>\<open>lower_bound\<close>, then \<^verbatim>\<open>if (idx >= size) idx = 0\<close>.
\<close>

definition start_index :: "u64 list \<Rightarrow> u64 \<Rightarrow> nat" where
  "start_index xs key =
     (let idx = lower_bound xs key in if idx \<ge> length xs then 0 else idx)"

definition DelSlice :: "u64 \<Rightarrow> u64 list \<Rightarrow> u64 list" where
  "DelSlice val xs =
     (let it = lower_bound xs val
      in if it < length xs \<and> xs ! it = val then take it xs @ drop (Suc it) xs else xs)"

definition AddToRing :: "member \<Rightarrow> Consistent \<Rightarrow> Consistent" where
  "AddToRing m s =
     (let hs = vnode_hashes s m
      in s\<lparr>ring_s := fold (\<lambda>h r. AList.update h m r) hs (ring_s s),
            sorted_set_s := sort (sorted_set_s s @ hs)\<rparr>)"

definition RemoveFromRing :: "string \<Rightarrow> Consistent \<Rightarrow> Consistent" where
  "RemoveFromRing name s =
     fold (\<lambda>h s'. s'\<lparr>ring_s := AList.delete h (ring_s s'),
                     sorted_set_s := DelSlice h (sorted_set_s s')\<rparr>)
          (vnode_hashes s name) s"

text \<open>\<^verbatim>\<open>InitMember\<close>: registry entry, virtual nodes, re-sort.\<close>

definition InitMember :: "member \<Rightarrow> Consistent \<Rightarrow> Consistent" where
  "InitMember m s =
     (let s1 = s\<lparr>members_s := (if m \<in> set (members_s s) then members_s s else members_s s @ [m])\<rparr>;
          hs = vnode_hashes s1 m
      in s1\<lparr>ring_s := fold (\<lambda>h r. AList.update h m r) hs (ring_s s1),
             sorted_set_s := sort (sorted_set_s s1 @ hs),
             members_dirty_s := True\<rparr>)"

section \<open>Placement engine\<close>

text \<open>
  The loop of \<^verbatim>\<open>DistributeWithLoad\<close>, which is repeated verbatim inside
  \<^verbatim>\<open>CalculatePartitionsWithRingAndMemberCount\<close>. The two copies differ in the cap
  \<open>avg_load\<close> and in how a hash missing from the ring map is read (\<^verbatim>\<open>operator[]\<close> yields a
  null pointer that is dereferenced; \<^verbatim>\<open>at\<close> throws), which are the parameters \<open>avg_load\<close>
  and \<open>miss\<close>. Reading \<^verbatim>\<open>loads[name]\<close> creates the entry with value 0 when it is absent.
  The result carries the value of the local \<^verbatim>\<open>count\<close> when the loop is left.
\<close>

definition loads_read :: "(string \<times> nat) list \<Rightarrow> string \<Rightarrow> (string \<times> nat) list" where
  "loads_read loads name = (case map_of loads name of None \<Rightarrow> AList.update name 0 loads | Some _ \<Rightarrow> loads)"

definition load_of :: "(string \<times> nat) list \<Rightarrow> string \<Rightarrow> nat" where
  "load_of loads name = (case map_of loads name of None \<Rightarrow> 0 | Some c \<Rightarrow> c)"

function walk ::
  "error \<Rightarrow> rat \<Rightarrow> (u64 \<times> member) list \<Rightarrow> u64 list \<Rightarrow> (string \<times> nat) list \<Rightarrow> nat \<Rightarrow> nat
     \<Rightarrow> (error + member \<times> (string \<times> nat) list) \<times> nat" where
  "walk miss avg_load ring sorted_set loads idx count =
     (let count' = count + 1 in
      if count' \<ge> length sorted_set then (Inl InsufficientSpace, count')
      else if idx \<ge> length sorted_set then (Inl UndefinedBehaviour, count')
      else case map_of ring (sorted_set ! idx) of
             None \<Rightarrow> (Inl miss, count')
           | Some m \<Rightarrow>
               let loads1 = loads_read loads m;
                   ld = load_of loads1 m
               in if of_nat ld + 1 \<le> avg_load
                  then (Inr (m, AList.update m (ld + 1) loads1), count')
                  else walk miss avg_load ring sorted_set loads1
                         (if idx + 1 \<ge> length sorted_set then 0 else idx + 1) count')"
  by pat_completeness auto
termination
  by (relation "measure (\<lambda>(miss, avg_load, ring, sorted_set, loads, idx, count).
                  length sorted_set - count)") auto

declare walk.simps [simp del]

text \<open>\<^verbatim>\<open>static_cast<int>\<close> of a \<^verbatim>\<open>uint64_t\<close>: the low 32 bits, read as two's complement.\<close>

definition to_int :: "u64 \<Rightarrow> int" where
  "to_int x = sint (ucast x :: 32 word)"

text \<open>The byte vector \<^verbatim>\<open>bs\<close> built from a partition id in both placement loops.\<close>

definition part_id_bytes :: "u64 \<Rightarrow> u8 list" where
  "part_id_bytes part_id = map (\<lambda>i. ucast (drop_bit (i * 8) part_id AND 0xFF)) [0 ..< 8]"

definition AverageLoad :: "Consistent \<Rightarrow> rat" where
  "AverageLoad s =
     (if members_s s = [] then 0
      else of_nat (unat (partition_count_s s)) / of_nat (length (members_s s)) * load (config_s s))"

definition DistributeWithLoad ::
  "Consistent \<Rightarrow> int \<Rightarrow> nat \<Rightarrow> (int \<times> member) list \<times> (string \<times> nat) list
     \<Rightarrow> error + (int \<times> member) list \<times> (string \<times> nat) list" where
  "DistributeWithLoad s part_id idx acc =
     (case fst (walk UndefinedBehaviour (AverageLoad s) (ring_s s) (sorted_set_s s) (snd acc) idx 0) of
        Inl e \<Rightarrow> Inl e
      | Inr (m, loads') \<Rightarrow> Inr (AList.update part_id m (fst acc), loads'))"

text \<open>One iteration of the \<^verbatim>\<open>for\<close> loop of \<^verbatim>\<open>DistributePartitions\<close>.\<close>

definition DistributePartitions_step ::
  "Consistent \<Rightarrow> u64 \<Rightarrow> (int \<times> member) list \<times> (string \<times> nat) list
     \<Rightarrow> error + (int \<times> member) list \<times> (string \<times> nat) list" where
  "DistributePartitions_step s part_id acc =
     (let bs = part_id_bytes part_id;
          key = Sum64 s bs;
          idx = start_index (sorted_set_s s) key
      in DistributeWithLoad s (to_int part_id) idx acc)"

text \<open>
  A \<^verbatim>\<open>for\<close> loop over partition ids that an exception leaves: the ids are visited in
  order and the first error ends the loop.
\<close>

fun for_parts ::
  "('p \<Rightarrow> 'a \<Rightarrow> error + 'a) \<Rightarrow> 'p list \<Rightarrow> 'a \<Rightarrow> error + 'a" where
  "for_parts body [] acc = Inr acc"
| "for_parts body (p # ps) acc =
     (case body p acc of Inl e \<Rightarrow> Inl e | Inr acc' \<Rightarrow> for_parts body ps acc')"

definition part_ids :: "u64 \<Rightarrow> u64 list" where
  "part_ids pc = map word_of_nat [0 ..< unat pc]"

definition DistributePartitions :: "Consistent \<Rightarrow> error + Consistent" where
  "DistributePartitions s =
     (case for_parts (DistributePartitions_step s) (part_ids (partition_count_s s)) ([], []) of
        Inl e \<Rightarrow> Inl e
      | Inr (partitions, loads) \<Rightarrow> Inr (s\<lparr>partitions_s := partitions, loads_s := loads\<rparr>))"

text \<open>One iteration of the \<^verbatim>\<open>for\<close> loop of \<^verbatim>\<open>CalculatePartitionsWithRingAndMemberCount\<close>.\<close>

definition Calculate_step ::
  "Consistent \<Rightarrow> (u64 \<times> member) list \<Rightarrow> u64 list \<Rightarrow> rat \<Rightarrow> u64
     \<Rightarrow> (int \<times> member) list \<times> (string \<times> nat) list
     \<Rightarrow> error + (int \<times> member) list \<times> (string \<times> nat) list" where
  "Calculate_step s ring sorted_set avg_load part_id acc =
     (let bs = part_id_bytes part_id;
          key = Sum64 s bs;
          idx = start_index sorted_set key
      in case fst (walk OutOfRange avg_load ring sorted_set (snd acc) idx 0) of
           Inl e \<Rightarrow> Inl e
         | Inr (m, loads') \<Rightarrow> Inr (AList.update (to_int part_id) m (fst acc), loads'))"

definition CalculatePartitionsWithRingAndMemberCount ::
  "Consistent \<Rightarrow> (u64 \<times> member) list \<Rightarrow> u64 list \<Rightarrow> int
     \<Rightarrow> error + (int \<times> member) list \<times> (string \<times> nat) list" where
  "CalculatePartitionsWithRingAndMemberCount s ring sorted_set member_count =
     (if member_count = 0 then Inr ([], [])
      else
        let avg_load = of_nat (unat (partition_count_s s)) / of_int member_count * load (config_s s);
            avg_load = of_int (ceiling avg_load)
        in for_parts (Calculate_step s ring sorted_set avg_load)
             (part_ids (partition_count_s s)) ([], []))"

section \<open>Construction\<close>

definition ValidateConfig :: "int \<Rightarrow> Config \<Rightarrow> error option" where
  "ValidateConfig member_count cfg =
     (if hasher cfg = None then Some InvalidArgument
      else if member_count = 0 then None
      else
        let avg_load = of_int (partition_count cfg) / of_int member_count * load cfg;
            max_load = of_int (ceiling avg_load) :: rat
        in if max_load > of_int (replication_factor cfg) * 2 then Some InvalidArgument else None)"

definition New :: "member list \<Rightarrow> Config \<Rightarrow> error + Consistent" where
  "New ms cfg0 =
     (let pc0 = word_of_int (partition_count cfg0) :: u64;
          zero_pc = (partition_count cfg0 = 0);
          cfg1 = (if zero_pc then cfg0\<lparr>partition_count := DEFAULT_PARTITION_COUNT\<rparr> else cfg0);
          pc = (if zero_pc then word_of_int DEFAULT_PARTITION_COUNT else pc0);
          cfg2 = (if replication_factor cfg1 = 0
                  then cfg1\<lparr>replication_factor := DEFAULT_REPLICATION_FACTOR\<rparr> else cfg1);
          cfg = (if load cfg2 = 0 then cfg2\<lparr>load := DEFAULT_LOAD\<rparr> else cfg2)
      in case ValidateConfig (int (length ms)) cfg of
           Some e \<Rightarrow> Inl e
         | None \<Rightarrow>
             let s0 = \<lparr>config_s = cfg, sorted_set_s = [], partition_count_s = pc, loads_s = [],
                       members_s = [], partitions_s = [], ring_s = [], cached_members_s = [],
                       members_dirty_s = True\<rparr>;
                 s1 = fold InitMember ms s0
             in if ms \<noteq> [] then DistributePartitions s1 else Inr s1)"

section \<open>Mutation\<close>

text \<open>
  A mutator returns the exception it raised, if any, together with the state the object
  is left in.
\<close>

definition CalculatePartitionsWithNewMember ::
  "Consistent \<Rightarrow> string \<Rightarrow> error + (int \<times> member) list \<times> (string \<times> nat) list" where
  "CalculatePartitionsWithNewMember s member_name =
     (if member_name \<notin> set (members_s s) then Inr (partitions_s s, loads_s s)
      else
        let hs = vnode_hashes s member_name;
            temp_ring = fold (\<lambda>h r. AList.update h member_name r) hs (ring_s s);
            temp_sorted_set = sort (sorted_set_s s @ hs);
            new_member_count = int (length (members_s s))
        in CalculatePartitionsWithRingAndMemberCount s temp_ring temp_sorted_set new_member_count)"

definition Add :: "member \<Rightarrow> Consistent \<Rightarrow> error option \<times> Consistent" where
  "Add m s =
     (if m \<in> set (members_s s) then (None, s)
      else
        let s1 = s\<lparr>members_s := members_s s @ [m]\<rparr>;
            s2 = AddToRing m s1
        in case CalculatePartitionsWithNewMember s2 m of
             Inl e \<Rightarrow> (Some e, s2)
           | Inr (new_partitions, new_loads) \<Rightarrow>
               (None, s2\<lparr>partitions_s := new_partitions, loads_s := new_loads,
                         members_dirty_s := True\<rparr>))"

definition CalculatePartitionsWithoutMember ::
  "Consistent \<Rightarrow> string \<Rightarrow> error + (int \<times> member) list \<times> (string \<times> nat) list" where
  "CalculatePartitionsWithoutMember s member_name =
     (let hashes_to_delete = vnode_hashes s member_name;
          kept = fold (\<lambda>(h, m) (temp_ring, temp_sorted_set).
                         if h \<in> set hashes_to_delete then (temp_ring, temp_sorted_set)
                         else (AList.update h m temp_ring, temp_sorted_set @ [h]))
                      (ring_s s) ([], [])
      in CalculatePartitionsWithRingAndMemberCount s (fst kept) (sort (snd kept))
           (int (length (members_s s)) - 1))"

definition RemoveByName :: "string \<Rightarrow> Consistent \<Rightarrow> error option \<times> Consistent" where
  "RemoveByName name s =
     (if name \<notin> set (members_s s) then (None, s)
      else case CalculatePartitionsWithoutMember s name of
             Inl e \<Rightarrow> (Some e, s)
           | Inr (new_partitions, new_loads) \<Rightarrow>
               let s1 = RemoveFromRing name s;
                   s2 = (if length (members_s s1) = 1
                         then s1\<lparr>partitions_s := [], loads_s := []\<rparr>
                         else s1\<lparr>partitions_s := new_partitions, loads_s := new_loads\<rparr>)
               in (None, s2\<lparr>members_s := remove1 name (members_s s2), members_dirty_s := True\<rparr>))"

section \<open>Key location\<close>

definition GetPartitionID :: "Consistent \<Rightarrow> u8 list \<Rightarrow> int" where
  "GetPartitionID s key = to_int (Sum64 s key mod partition_count_s s)"

definition GetPartitionOwner :: "Consistent \<Rightarrow> int \<Rightarrow> member option" where
  "GetPartitionOwner s part_id = map_of (partitions_s s) part_id"

text \<open>\<^verbatim>\<open>LocateKey\<close>; \<open>None\<close> is the null pointer.\<close>

definition LocateKey :: "Consistent \<Rightarrow> u8 list \<Rightarrow> member option" where
  "LocateKey s key =
     (if ring_s s = [] then None else GetPartitionOwner s (GetPartitionID s key))"

text \<open>
  The \<^verbatim>\<open>while\<close> loop of \<^verbatim>\<open>GetClosestN(int, int)\<close>. Nothing in the loop bounds the number
  of iterations, so the result is optional: \<open>None\<close> stands for a loop that never ends.
  The set \<^verbatim>\<open>seen\<close> holds the names of the members in \<^verbatim>\<open>result\<close>.
\<close>

partial_function (option) closest_loop ::
  "Consistent \<Rightarrow> int \<Rightarrow> member list \<Rightarrow> string list \<Rightarrow> nat \<Rightarrow> (error + member list) option" where
  "closest_loop s count result seen idx =
     (if int (length result) < count \<and> length seen < length (members_s s) then
        (case map_of (ring_s s) (sorted_set_s s ! idx) of
           None \<Rightarrow> Some (Inl OutOfRange)
         | Some m \<Rightarrow>
             closest_loop s count
               (if m \<in> set seen then result else result @ [m])
               (if m \<in> set seen then seen else seen @ [m])
               (if idx + 1 \<ge> length (sorted_set_s s) then 0 else idx + 1))
      else Some (Inr result))"

declare closest_loop.simps [code]

definition GetClosestN_part :: "Consistent \<Rightarrow> int \<Rightarrow> int \<Rightarrow> (error + member list) option" where
  "GetClosestN_part s part_id count =
     (if count > int (length (members_s s)) then Some (Inl InsufficientMemberCount)
      else if sorted_set_s s = [] then Some (Inl InsufficientMemberCount)
      else case GetPartitionOwner s part_id of
             None \<Rightarrow> Some (Inl InsufficientMemberCount)
           | Some owner \<Rightarrow>
               let owner_key = Sum64 s (string_bytes owner);
                   start_idx = start_index (sorted_set_s s) owner_key
               in closest_loop s count [] [] start_idx)"

definition GetClosestN :: "Consistent \<Rightarrow> u8 list \<Rightarrow> int \<Rightarrow> (error + member list) option" where
  "GetClosestN s key count =
     (if count \<le> 0 then Some (Inr [])
      else if count > int (length (members_s s)) then Some (Inl InsufficientMemberCount)
      else GetClosestN_part s (GetPartitionID s key) count)"

section \<open>Specification-level notions\<close>

text \<open>
  The five components that the specification names when it speaks of the state of a ring:
  member registry, virtual-node ring, sorted array, partition table and load map.
\<close>

definition snapshot ::
  "Consistent \<Rightarrow> member list \<times> (u64 \<times> member) list \<times> u64 list \<times> (int \<times> member) list \<times> (string \<times> nat) list" where
  "snapshot s = (members_s s, ring_s s, sorted_set_s s, partitions_s s, loads_s s)"

text \<open>
  The specification's encoding of a partition id: eight bytes, little-endian, byte \<open>i\<close>
  holding bits \<open>8i .. 8i+7\<close> of the id. This definition follows the specification's
  words; \<open>part_id_bytes\<close> above follows the source.
\<close>

definition le8_spec :: "u64 \<Rightarrow> u8 list" where
  "le8_spec p = map (\<lambda>i. word_of_nat (unat p div 2 ^ (8 * i) mod 2 ^ 8)) [0 ..< 8]"




text \<open>
  The rings a program can hold: what the constructor returns, and what \<^verbatim>\<open>Add\<close> and
  \<^verbatim>\<open>RemoveByName\<close> leave behind, whether they return or throw.
\<close>

inductive reachable :: "Consistent \<Rightarrow> bool" where
  reachable_New: "New ms cfg = Inr s \<Longrightarrow> reachable s"
| reachable_Add: "reachable s \<Longrightarrow> reachable (snd (Add m s))"
| reachable_RemoveByName: "reachable s \<Longrightarrow> reachable (snd (RemoveByName name s))"





text \<open>
  Bookkeeping for the proofs: every counter of a load map is zero or within the cap, and
  the two facts about the partition table that every reachable ring satisfies.
\<close>

definition loads_within :: "rat \<Rightarrow> (string \<times> nat) list \<Rightarrow> bool" where
  "loads_within avg l = (\<forall>x \<in> set l. snd x = 0 \<or> of_nat (snd x) \<le> avg)"

definition table_inv :: "Consistent \<Rightarrow> bool" where
  "table_inv s = ((members_s s = [] \<longrightarrow> partitions_s s = [])
                  \<and> (partitions_s s \<noteq> [] \<longrightarrow> ring_s s \<noteq> []))"

section \<open>Example rings\<close>

text \<open>
  \<^verbatim>\<open>Config(CreateFNVHasher(), pc, rf, l)\<close>.
\<close>

definition fnv_config :: "int \<Rightarrow> int \<Rightarrow> rat \<Rightarrow> Config" where
  "fnv_config pc rf l =
     \<lparr>hasher = Some FNV_Sum64, partition_count = pc, replication_factor = rf, load = l\<rparr>"

text \<open>Every field of a ring but the configuration, for comparing rings by evaluation.\<close>

definition data_fields ::
  "Consistent \<Rightarrow> u64 list \<times> u64 \<times> (string \<times> nat) list \<times> member list \<times> (int \<times> member) list
     \<times> (u64 \<times> member) list \<times> member list \<times> bool" where
  "data_fields s =
     (sorted_set_s s, partition_count_s s, loads_s s, members_s s, partitions_s s, ring_s s,
      cached_members_s s, members_dirty_s s)"

definition result_fields :: "error + Consistent \<Rightarrow> error + _" where
  "result_fields r = (case r of Inl e \<Rightarrow> Inl e | Inr s \<Rightarrow> Inr (data_fields s))"


text \<open>Members \<open>A\<close> and \<open>B\<close>, four partitions, two virtual nodes each, load factor 1.25.\<close>

definition ab_ring :: Consistent where
  "ab_ring =
     \<lparr>config_s = fnv_config 4 2 (5 / 4),
      sorted_set_s = [650930707964705748, 650931807476333959, 653869702546346076,
                      653870802057974287],
      partition_count_s = 4,
      loads_s = [(''A'', 2), (''B'', 2)],
      members_s = [''A'', ''B''],
      partitions_s = [(0, ''A''), (1, ''A''), (2, ''B''), (3, ''B'')],
      ring_s = [(650930707964705748, ''A''), (650931807476333959, ''A''),
                (653870802057974287, ''B''), (653869702546346076, ''B'')],
      cached_members_s = [],
      members_dirty_s = True\<rparr>"

text \<open>The empty ring with four partitions, one virtual node per member, load factor 1.25.\<close>

definition empty_ring :: Consistent where
  "empty_ring =
     \<lparr>config_s = fnv_config 4 1 (5 / 4), sorted_set_s = [], partition_count_s = 4,
      loads_s = [], members_s = [], partitions_s = [], ring_s = [], cached_members_s = [],
      members_dirty_s = True\<rparr>"







section \<open>Fields that the operations leave alone\<close>

lemma config_RemoveFromRing_aux:
  "config_s (fold (\<lambda>h s'. s'\<lparr>ring_s := AList.delete h (ring_s s'),
                     sorted_set_s := DelSlice h (sorted_set_s s')\<rparr>) hs s) = config_s s
   \<and> members_s (fold (\<lambda>h s'. s'\<lparr>ring_s := AList.delete h (ring_s s'),
                     sorted_set_s := DelSlice h (sorted_set_s s')\<rparr>) hs s) = members_s s
   \<and> partition_count_s (fold (\<lambda>h s'. s'\<lparr>ring_s := AList.delete h (ring_s s'),
                     sorted_set_s := DelSlice h (sorted_set_s s')\<rparr>) hs s) = partition_count_s s
   \<and> partitions_s (fold (\<lambda>h s'. s'\<lparr>ring_s := AList.delete h (ring_s s'),
                     sorted_set_s := DelSlice h (sorted_set_s s')\<rparr>) hs s) = partitions_s s
   \<and> loads_s (fold (\<lambda>h s'. s'\<lparr>ring_s := AList.delete h (ring_s s'),
                     sorted_set_s := DelSlice h (sorted_set_s s')\<rparr>) hs s) = loads_s s
   \<and> ring_s (fold (\<lambda>h s'. s'\<lparr>ring_s := AList.delete h (ring_s s'),
                     sorted_set_s := DelSlice h (sorted_set_s s')\<rparr>) hs s)
       = fold AList.delete hs (ring_s s)"
  by (induction hs arbitrary: s) simp_all

lemma RemoveFromRing_fields [simp]:
  "config_s (RemoveFromRing name s) = config_s s"
  "members_s (RemoveFromRing name s) = members_s s"
  "partition_count_s (RemoveFromRing name s) = partition_count_s s"
  "partitions_s (RemoveFromRing name s) = partitions_s s"
  "loads_s (RemoveFromRing name s) = loads_s s"
  "ring_s (RemoveFromRing name s) = fold AList.delete (vnode_hashes s name) (ring_s s)"
  unfolding RemoveFromRing_def using config_RemoveFromRing_aux by blast+

lemma AddToRing_fields [simp]:
  "config_s (AddToRing m s) = config_s s"
  "members_s (AddToRing m s) = members_s s"
  "partition_count_s (AddToRing m s) = partition_count_s s"
  "partitions_s (AddToRing m s) = partitions_s s"
  "loads_s (AddToRing m s) = loads_s s"
  "ring_s (AddToRing m s) = fold (\<lambda>h r. AList.update h m r) (vnode_hashes s m) (ring_s s)"
  by (simp_all add: AddToRing_def Let_def)

lemma InitMember_fields [simp]:
  "config_s (InitMember m s) = config_s s"
  "partition_count_s (InitMember m s) = partition_count_s s"
  "partitions_s (InitMember m s) = partitions_s s"
  "loads_s (InitMember m s) = loads_s s"
  "members_s (InitMember m s) = (if m \<in> set (members_s s) then members_s s else members_s s @ [m])"
  by (simp_all add: InitMember_def Let_def)

lemma fold_InitMember_fields [simp]:
  "config_s (fold InitMember ms s) = config_s s"
  "partition_count_s (fold InitMember ms s) = partition_count_s s"
  "partitions_s (fold InitMember ms s) = partitions_s s"
  "loads_s (fold InitMember ms s) = loads_s s"
  by (induction ms arbitrary: s) simp_all

lemma fold_InitMember_members_keep:
  "members_s s \<noteq> [] \<Longrightarrow> members_s (fold InitMember ms s) \<noteq> []"
  by (induction ms arbitrary: s) auto

lemma fold_InitMember_members_nonempty:
  "ms \<noteq> [] \<Longrightarrow> members_s (fold InitMember ms s) \<noteq> []"
  by (cases ms) (auto intro!: fold_InitMember_members_keep split: if_splits)

lemma Add_config [simp]: "config_s (snd (Add m s)) = config_s s"
  by (simp add: Add_def Let_def split: sum.splits prod.splits)

lemma Add_partition_count [simp]: "partition_count_s (snd (Add m s)) = partition_count_s s"
  by (simp add: Add_def Let_def split: sum.splits prod.splits)

lemma RemoveByName_config [simp]: "config_s (snd (RemoveByName name s)) = config_s s"
  by (simp add: RemoveByName_def Let_def split: sum.splits prod.splits)

lemma RemoveByName_partition_count [simp]:
  "partition_count_s (snd (RemoveByName name s)) = partition_count_s s"
  by (simp add: RemoveByName_def Let_def split: sum.splits prod.splits)

lemma New_config:
  "New ms cfg = Inr s \<Longrightarrow> hasher (config_s s) = hasher cfg"
  by (auto simp: New_def Let_def DistributePartitions_def split: option.splits if_splits sum.splits prod.splits)

lemma Consistent_eqI:
  "config_s s = config_s t \<Longrightarrow> data_fields s = data_fields t \<Longrightarrow> (s :: Consistent) = t"
  by (cases s, cases t) (simp add: data_fields_def)

lemma Config_eqI:
  "hasher c = hasher d \<Longrightarrow> partition_count c = partition_count d
   \<Longrightarrow> replication_factor c = replication_factor d \<Longrightarrow> load c = load d \<Longrightarrow> (c :: Config) = d"
  by (cases c, cases d) simp

section \<open>The sorted array stays sorted\<close>

text \<open>
  \<open>lower_bound\<close> models \<^verbatim>\<open>std::lower_bound\<close> on ascending ranges only. On such a range it
  is the position of the first element that is not below the value, \<open>DelSlice\<close> removes
  the first occurrence of the value, and the sorted array of every reachable ring is
  ascending.
\<close>

lemma lower_bound_Cons:
  "lower_bound (x # xs) v = (if x < v then Suc (lower_bound xs v) else 0)"
  by (simp add: lower_bound_def)

lemma lower_bound_le_length: "lower_bound xs v \<le> length xs"
  by (simp add: lower_bound_def length_takeWhile_le)

lemma lower_bound_below:
  "i < lower_bound xs v \<Longrightarrow> xs ! i < v"
proof -
  assume "i < lower_bound xs v"
  then have i: "i < length (takeWhile (\<lambda>x. x < v) xs)" by (simp add: lower_bound_def)
  then have "takeWhile (\<lambda>x. x < v) xs ! i \<in> set (takeWhile (\<lambda>x. x < v) xs)" by (rule nth_mem)
  then have "takeWhile (\<lambda>x. x < v) xs ! i < v" by (auto dest: set_takeWhileD)
  with i show ?thesis by (simp add: takeWhile_nth)
qed

lemma lower_bound_above:
  assumes "sorted xs" and "lower_bound xs v \<le> i" and "i < length xs"
  shows "v \<le> xs ! i"
proof -
  let ?k = "lower_bound xs v"
  from assms have k: "?k < length xs" by simp
  then have "\<not> xs ! ?k < v"
    unfolding lower_bound_def by (rule nth_length_takeWhile)
  then have "v \<le> xs ! ?k" by simp
  also from assms have "xs ! ?k \<le> xs ! i" by (intro sorted_nth_mono) simp_all
  finally show ?thesis .
qed

lemma DelSlice_remove1:
  "sorted xs \<Longrightarrow> DelSlice v xs = remove1 v xs"
proof (induction xs)
  case Nil
  then show ?case by (simp add: DelSlice_def lower_bound_def)
next
  case (Cons x xs)
  then have IH: "DelSlice v xs = remove1 v xs" and le: "\<forall>y \<in> set xs. x \<le> y" by simp_all
  show ?case
  proof (cases "x < v")
    case True
    with IH show ?thesis
      by (auto simp: DelSlice_def Let_def lower_bound_Cons)
  next
    case False
    show ?thesis
    proof (cases "x = v")
      case True
      then show ?thesis by (simp add: DelSlice_def Let_def lower_bound_Cons)
    next
      case ne: False
      with False have "v < x" by simp
      with le have "v \<notin> set xs" by auto
      with ne False show ?thesis
        by (simp add: DelSlice_def Let_def lower_bound_Cons remove1_idem)
    qed
  qed
qed

lemma sorted_DelSlice: "sorted xs \<Longrightarrow> sorted (DelSlice v xs)"
  by (simp add: DelSlice_remove1 sorted_remove1)

lemma sorted_fold_DelSlice:
  "sorted (sorted_set_s s) \<Longrightarrow>
   sorted (sorted_set_s (fold (\<lambda>h s'. s'\<lparr>ring_s := AList.delete h (ring_s s'),
                     sorted_set_s := DelSlice h (sorted_set_s s')\<rparr>) hs s))"
  by (induction hs arbitrary: s) (simp_all add: sorted_DelSlice)

lemma sorted_fold_InitMember:
  "sorted (sorted_set_s s) \<Longrightarrow> sorted (sorted_set_s (fold InitMember ms s))"
  by (induction ms arbitrary: s) (simp_all add: InitMember_def Let_def)

lemma reachable_sorted: "reachable s \<Longrightarrow> sorted (sorted_set_s s)"
proof (induction rule: reachable.induct)
  case (reachable_New ms cfg s)
  then show ?case
    by (auto simp: New_def Let_def DistributePartitions_def
        split: option.splits if_splits sum.splits prod.splits
        intro!: sorted_fold_InitMember)
next
  case (reachable_Add s m)
  then show ?case
    by (auto simp: Add_def Let_def AddToRing_def split: sum.splits prod.splits)
next
  case (reachable_RemoveByName s name)
  then show ?case
    by (auto simp: RemoveByName_def Let_def RemoveFromRing_def
        split: sum.splits prod.splits intro!: sorted_fold_DelSlice)
qed

section \<open>The placement walk\<close>

subsection \<open>The walk, case by case\<close>

lemma walk_stop:
  "length ss \<le> c + 1 \<Longrightarrow> walk miss avg ring ss loads idx c = (Inl InsufficientSpace, c + 1)"
  by (subst walk.simps) simp

lemma walk_oob:
  "c + 1 < length ss \<Longrightarrow> length ss \<le> idx \<Longrightarrow>
   walk miss avg ring ss loads idx c = (Inl UndefinedBehaviour, c + 1)"
  by (subst walk.simps) simp

lemma walk_miss:
  "c + 1 < length ss \<Longrightarrow> idx < length ss \<Longrightarrow> map_of ring (ss ! idx) = None \<Longrightarrow>
   walk miss avg ring ss loads idx c = (Inl miss, c + 1)"
  by (subst walk.simps) simp

lemma walk_place:
  "c + 1 < length ss \<Longrightarrow> idx < length ss \<Longrightarrow> map_of ring (ss ! idx) = Some m \<Longrightarrow>
   of_nat (load_of (loads_read loads m) m) + 1 \<le> avg \<Longrightarrow>
   walk miss avg ring ss loads idx c =
     (Inr (m, AList.update m (load_of (loads_read loads m) m + 1) (loads_read loads m)), c + 1)"
  by (subst walk.simps) (simp add: Let_def)

lemma walk_next:
  "c + 1 < length ss \<Longrightarrow> idx < length ss \<Longrightarrow> map_of ring (ss ! idx) = Some m \<Longrightarrow>
   \<not> of_nat (load_of (loads_read loads m) m) + 1 \<le> avg \<Longrightarrow>
   walk miss avg ring ss loads idx c =
     walk miss avg ring ss (loads_read loads m)
       (if length ss \<le> idx + 1 then 0 else idx + 1) (c + 1)"
  by (subst walk.simps) (simp add: Let_def)

text \<open>An induction principle that follows the five cases.\<close>

lemma walk_cases_induct [case_names stop oob miss place advance]:
  assumes "\<And>loads idx c. length ss \<le> c + 1 \<Longrightarrow> Q loads idx c"
    and "\<And>loads idx c. c + 1 < length ss \<Longrightarrow> length ss \<le> idx \<Longrightarrow> Q loads idx c"
    and "\<And>loads idx c. c + 1 < length ss \<Longrightarrow> idx < length ss \<Longrightarrow>
           map_of ring (ss ! idx) = None \<Longrightarrow> Q loads idx c"
    and "\<And>loads idx c m. c + 1 < length ss \<Longrightarrow> idx < length ss \<Longrightarrow>
           map_of ring (ss ! idx) = Some m \<Longrightarrow>
           of_nat (load_of (loads_read loads m) m) + 1 \<le> avg \<Longrightarrow> Q loads idx c"
    and "\<And>loads idx c m. c + 1 < length ss \<Longrightarrow> idx < length ss \<Longrightarrow>
           map_of ring (ss ! idx) = Some m \<Longrightarrow>
           \<not> of_nat (load_of (loads_read loads m) m) + 1 \<le> avg \<Longrightarrow>
           Q (loads_read loads m) (if length ss \<le> idx + 1 then 0 else idx + 1) (c + 1) \<Longrightarrow>
           Q loads idx c"
  shows "Q loads idx (c :: nat)"
proof (induction "length ss - c" arbitrary: loads idx c rule: less_induct)
  case less
  show ?case
  proof (cases "length ss \<le> c + 1")
    case True
    then show ?thesis by (rule assms(1))
  next
    case nf: False
    show ?thesis
    proof (cases "length ss \<le> idx")
      case True
      with nf show ?thesis by (simp add: assms(2))
    next
      case ni: False
      show ?thesis
      proof (cases "map_of ring (ss ! idx)")
        case None
        with nf ni show ?thesis by (simp add: assms(3))
      next
        case (Some m)
        show ?thesis
        proof (cases "of_nat (load_of (loads_read loads m) m) + 1 \<le> avg")
          case True
          from nf ni have "c + 1 < length ss" "idx < length ss" by simp_all
          from assms(4) [OF this Some True] show ?thesis .
        next
          case False
          have q: "Q (loads_read loads m) (if length ss \<le> idx + 1 then 0 else idx + 1) (c + 1)"
            using nf by (intro less) simp
          from nf ni have "c + 1 < length ss" "idx < length ss" by simp_all
          from assms(5) [OF this Some False q] show ?thesis .
        qed
      qed
    qed
  qed
qed

subsection \<open>Load maps\<close>

lemma sum_update:
  "sum_list (map snd (AList.update k v al)) + load_of al k = sum_list (map snd al) + v"
  by (induction al) (auto simp: load_of_def)

lemma set_update:
  "x \<in> set (AList.update k v al) \<Longrightarrow> x = (k, v) \<or> x \<in> set al"
  by (induction al) (auto split: if_splits)

lemma loads_read_sum [simp]: "sum_list (map snd (loads_read l m)) = sum_list (map snd l)"
  using sum_update [of m 0 l] by (auto simp: loads_read_def load_of_def split: option.splits)

lemma loads_read_load_of [simp]: "load_of (loads_read l m) m = load_of l m"
  by (auto simp: loads_read_def load_of_def update_conv' split: option.splits)

lemma loads_read_set: "x \<in> set (loads_read l m) \<Longrightarrow> x \<in> set l \<or> snd x = 0"
  by (auto simp: loads_read_def split: option.splits dest!: set_update)

lemma loads_within_read: "loads_within avg l \<Longrightarrow> loads_within avg (loads_read l m)"
  unfolding loads_within_def by (blast dest: loads_read_set)

lemma loads_within_update:
  "loads_within avg l \<Longrightarrow> of_nat v \<le> avg \<Longrightarrow> loads_within avg (AList.update k v l)"
  unfolding loads_within_def by (auto dest!: set_update)

lemma walk_success:
  "walk miss avg ring ss loads idx c = (Inr (m, loads'), c') \<Longrightarrow>
     sum_list (map snd loads') = Suc (sum_list (map snd loads))
     \<and> 1 \<le> avg
     \<and> (loads_within avg loads \<longrightarrow> loads_within avg loads')
     \<and> ring \<noteq> []"
proof (induction loads idx c rule: walk_cases_induct [where ss = ss and ring = ring and avg = avg])
  case (stop loads idx c)
  then show ?case by (simp add: walk_stop)
next
  case (oob loads idx c)
  then show ?case by (simp add: walk_oob)
next
  case (miss loads idx c)
  then show ?case by (simp add: walk_miss)
next
  case (place loads idx c k)
  have le: "(1 :: rat) \<le> of_nat (load_of loads k) + 1" by simp
  from place.prems place.hyps
  have eq: "loads' = AList.update k (load_of loads k + 1) (loads_read loads k)"
    by (auto simp: walk_place)
  have s: "sum_list (map snd loads') = Suc (sum_list (map snd loads))"
    using sum_update [of k "load_of loads k + 1" "loads_read loads k"] unfolding eq by simp
  have w: "loads_within avg loads \<longrightarrow> loads_within avg loads'"
    unfolding eq using place.hyps(4) by (auto intro!: loads_within_update loads_within_read)
  from place.hyps(3) have r: "ring \<noteq> []" by auto
  from le place.hyps(4) have a: "1 \<le> avg" by simp
  from s a w r show ?case by blast
next
  case (advance loads idx c k)
  from advance.prems advance.hyps(1-4) have
    "walk miss avg ring ss (loads_read loads k) (if length ss \<le> idx + 1 then 0 else idx + 1) (c + 1)
       = (Inr (m, loads'), c')"
    by (simp add: walk_next)
  from advance.IH [OF this] show ?case
    by (simp add: loads_within_read)
qed






subsection \<open>Placement loops\<close>


lemma walk_success_fst:
  assumes "fst (walk miss avg ring ss loads idx c) = Inr (m, loads')"
  shows "sum_list (map snd loads') = Suc (sum_list (map snd loads))"
    and "1 \<le> avg"
    and "loads_within avg loads \<Longrightarrow> loads_within avg loads'"
    and "ring \<noteq> []"
proof -
  from assms have "walk miss avg ring ss loads idx c
      = (Inr (m, loads'), snd (walk miss avg ring ss loads idx c))"
    by (metis prod.collapse)
  from walk_success [OF this]
  show "sum_list (map snd loads') = Suc (sum_list (map snd loads))" and "1 \<le> avg"
    and "loads_within avg loads \<Longrightarrow> loads_within avg loads'" and "ring \<noteq> []"
    by simp_all
qed


lemma Calculate_step_ring:
  "Calculate_step s ring ss avg p acc = Inr acc' \<Longrightarrow> ring \<noteq> [] \<and> fst acc' \<noteq> []"
  unfolding Calculate_step_def Let_def
  by (auto split: sum.splits prod.splits dest: walk_success_fst(4))


lemma DistributePartitions_step_ring:
  "DistributePartitions_step s p acc = Inr acc' \<Longrightarrow> ring_s s \<noteq> []"
  unfolding DistributePartitions_step_def DistributeWithLoad_def Let_def
  by (auto split: sum.splits prod.splits dest: walk_success_fst(4))

lemma length_part_ids [simp]: "length (part_ids pc) = unat pc"
  by (simp add: part_ids_def)

lemma loads_within_Nil [simp]: "loads_within avg []"
  by (simp add: loads_within_def)





section \<open>The load invariant\<close>





section \<open>Key location\<close>

subsection \<open>Ring maps\<close>

lemma fold_update_nonempty:
  "hs \<noteq> [] \<or> r \<noteq> [] \<Longrightarrow> fold (\<lambda>h r. AList.update h m r) hs r \<noteq> []"
  by (induction hs arbitrary: r) auto

lemma keys_delete: "fst ` set (AList.delete k al) = fst ` set al - {k}"
  by (induction al) auto

lemma keys_fold_delete:
  "fst ` set (fold AList.delete hs r) = fst ` set r - set hs"
  by (induction hs arbitrary: r) (auto simp: keys_delete)

lemma keys_kept:
  "h \<in> fst ` set (fst (fold (\<lambda>(h, m) (temp_ring, temp_sorted_set).
                         if h \<in> D then (temp_ring, temp_sorted_set)
                         else (AList.update h m temp_ring, temp_sorted_set @ [h])) ring acc))
   \<Longrightarrow> h \<in> fst ` set (fst acc) \<or> (h \<notin> D \<and> h \<in> fst ` set ring)"
proof (induction ring arbitrary: acc)
  case Nil
  then show ?case by simp
next
  case (Cons x ring)
  obtain k v where x: "x = (k, v)" by (cases x)
  obtain tr ts where acc: "acc = (tr, ts)" by (cases acc)
  show ?case
  proof (cases "k \<in> D")
    case True
    with Cons.prems x acc have
      "h \<in> fst ` set (fst (fold (\<lambda>(h, m) (temp_ring, temp_sorted_set).
                         if h \<in> D then (temp_ring, temp_sorted_set)
                         else (AList.update h m temp_ring, temp_sorted_set @ [h])) ring acc))"
      by simp
    from Cons.IH [OF this] show ?thesis by auto
  next
    case False
    with Cons.prems x acc have
      "h \<in> fst ` set (fst (fold (\<lambda>(h, m) (temp_ring, temp_sorted_set).
                         if h \<in> D then (temp_ring, temp_sorted_set)
                         else (AList.update h m temp_ring, temp_sorted_set @ [h])) ring
                         (AList.update k v tr, ts @ [k])))"
      by simp
    from Cons.IH [OF this] False x acc show ?thesis by (auto simp: dom_update)
  qed
qed

lemma vnode_hashes_config:
  "config_s s = config_s t \<Longrightarrow> vnode_hashes s name = vnode_hashes t name"
  by (simp add: vnode_hashes_def Sum64_def)

subsection \<open>A placed partition needs a ring position\<close>

lemma for_parts_first:
  assumes "for_parts body ps acc = Inr acc'" and "ps \<noteq> []"
  obtains acc1 where "body (hd ps) acc = Inr acc1"
  using assms by (cases ps) (auto split: sum.splits)

lemma Calculate_ring:
  assumes "CalculatePartitionsWithRingAndMemberCount s ring ss mc = Inr (np, nl)" and "np \<noteq> []"
  shows "ring \<noteq> []"
proof -
  from assms have mc: "mc \<noteq> 0"
    by (auto simp: CalculatePartitionsWithRingAndMemberCount_def)
  let ?avg = "of_int \<lceil>of_nat (unat (partition_count_s s)) / of_int mc * load (config_s s)\<rceil> :: rat"
  from assms(1) mc have fp:
    "for_parts (Calculate_step s ring ss ?avg) (part_ids (partition_count_s s)) ([], []) = Inr (np, nl)"
    by (simp add: CalculatePartitionsWithRingAndMemberCount_def Let_def)
  with assms(2) have "part_ids (partition_count_s s) \<noteq> []"
    by (cases "part_ids (partition_count_s s)") auto
  from for_parts_first [OF fp this] obtain acc1 where
    "Calculate_step s ring ss ?avg (hd (part_ids (partition_count_s s))) ([], []) = Inr acc1" .
  then show ?thesis by (auto dest: Calculate_step_ring)
qed

lemma DistributePartitions_ring:
  assumes "DistributePartitions s = Inr s'" and "partitions_s s' \<noteq> []"
  shows "ring_s s' \<noteq> []"
proof -
  from assms(1) obtain parts loads where
    fp: "for_parts (DistributePartitions_step s) (part_ids (partition_count_s s)) ([], []) = Inr (parts, loads)"
    and s': "s' = s\<lparr>partitions_s := parts, loads_s := loads\<rparr>"
    by (auto simp: DistributePartitions_def split: sum.splits prod.splits)
  with assms(2) have "part_ids (partition_count_s s) \<noteq> []"
    by (cases "part_ids (partition_count_s s)") auto
  from for_parts_first [OF fp this] obtain acc1 where
    "DistributePartitions_step s (hd (part_ids (partition_count_s s))) ([], []) = Inr acc1" .
  then show ?thesis by (auto simp: s' dest: DistributePartitions_step_ring)
qed

subsection \<open>Invariants of reachable rings\<close>

lemma New_table_inv:
  assumes "New ms cfg = Inr s"
  shows "table_inv s"
proof (cases "ms = []")
  case True
  with assms have "partitions_s s = []"
    by (auto simp: New_def Let_def split: option.splits)
  then show ?thesis by (simp add: table_inv_def)
next
  case False
  with assms obtain s1 where d: "DistributePartitions s1 = Inr s" and m: "members_s s1 \<noteq> []"
    by (auto simp: New_def Let_def fold_InitMember_members_nonempty split: option.splits)
  from d have "members_s s = members_s s1"
    by (auto simp: DistributePartitions_def split: sum.splits prod.splits)
  with m DistributePartitions_ring [OF d] show ?thesis by (simp add: table_inv_def)
qed

lemma Add_table_inv:
  assumes "table_inv s"
  shows "table_inv (snd (Add m s))"
proof (cases "m \<in> set (members_s s)")
  case True
  with assms show ?thesis by (simp add: Add_def)
next
  case False
  define s2 where "s2 = AddToRing m (s\<lparr>members_s := members_s s @ [m]\<rparr>)"
  let ?hs = "vnode_hashes s m"
  have hs: "vnode_hashes (s\<lparr>members_s := members_s s @ [m]\<rparr>) m = ?hs"
    by (rule vnode_hashes_config) simp
  have ms2: "members_s s2 = members_s s @ [m]" by (simp add: s2_def)
  have r2: "ring_s s2 = fold (\<lambda>h r. AList.update h m r) ?hs (ring_s s)"
    by (simp add: s2_def hs)
  have p2: "partitions_s s2 = partitions_s s" by (simp add: s2_def)
  show ?thesis
  proof (cases "CalculatePartitionsWithNewMember s2 m")
    case (Inl e)
    with False have "snd (Add m s) = s2" by (simp add: Add_def Let_def s2_def)
    moreover have "ring_s s2 \<noteq> []" if "partitions_s s \<noteq> []"
    proof -
      from that assms have "ring_s s \<noteq> []" by (simp add: table_inv_def)
      then show ?thesis unfolding r2 by (simp add: fold_update_nonempty)
    qed
    ultimately show ?thesis by (simp add: table_inv_def ms2 p2)
  next
    case (Inr pl)
    obtain np nl where pl: "pl = (np, nl)" by (cases pl)
    from Inr pl False have s': "snd (Add m s) = s2\<lparr>partitions_s := np, loads_s := nl, members_dirty_s := True\<rparr>"
      by (simp add: Add_def Let_def s2_def)
    have "ring_s s2 \<noteq> []" if "np \<noteq> []"
    proof -
      have "vnode_hashes s2 m = ?hs" by (rule vnode_hashes_config) (simp add: s2_def)
      with Inr pl ms2 have
        "CalculatePartitionsWithRingAndMemberCount s2 (fold (\<lambda>h r. AList.update h m r) ?hs (ring_s s2))
           (sort (sorted_set_s s2 @ ?hs)) (int (length (members_s s2))) = Inr (np, nl)"
        by (simp add: CalculatePartitionsWithNewMember_def Let_def)
      from Calculate_ring [OF this that] show ?thesis
        unfolding r2 by (cases ?hs) (auto simp: fold_update_nonempty)
    qed
    then show ?thesis by (simp add: table_inv_def s' ms2)
  qed
qed

lemma RemoveByName_table_inv:
  assumes "table_inv s"
  shows "table_inv (snd (RemoveByName name s))"
proof (cases "name \<in> set (members_s s)")
  case False
  with assms show ?thesis by (simp add: RemoveByName_def)
next
  case True
  show ?thesis
  proof (cases "CalculatePartitionsWithoutMember s name")
    case (Inl e)
    with True assms show ?thesis by (simp add: RemoveByName_def)
  next
    case (Inr pl)
    obtain np nl where pl: "pl = (np, nl)" by (cases pl)
    show ?thesis
    proof (cases "length (members_s s) = 1")
      case one: True
      with Inr pl True have "partitions_s (snd (RemoveByName name s)) = []"
        by (simp add: RemoveByName_def Let_def)
      then show ?thesis by (simp add: table_inv_def)
    next
      case False
      with Inr pl True have s': "snd (RemoveByName name s) =
          (RemoveFromRing name s)\<lparr>partitions_s := np, loads_s := nl,
            members_s := remove1 name (members_s s), members_dirty_s := True\<rparr>"
        by (simp add: RemoveByName_def Let_def)
      from True False have "remove1 name (members_s s) \<noteq> []"
        by (cases "members_s s") (auto split: if_splits)
      moreover have "fold AList.delete (vnode_hashes s name) (ring_s s) \<noteq> []" if "np \<noteq> []"
      proof -
        let ?kept = "fold (\<lambda>(h, m) (temp_ring, temp_sorted_set).
                         if h \<in> set (vnode_hashes s name) then (temp_ring, temp_sorted_set)
                         else (AList.update h m temp_ring, temp_sorted_set @ [h]))
                      (ring_s s) ([], [])"
        from Inr pl have "CalculatePartitionsWithRingAndMemberCount s (fst ?kept) (sort (snd ?kept))
            (int (length (members_s s)) - 1) = Inr (np, nl)"
          by (simp add: CalculatePartitionsWithoutMember_def Let_def)
        from Calculate_ring [OF this that] obtain h where "h \<in> fst ` set (fst ?kept)"
          by (cases "fst ?kept") auto
        from keys_kept [OF this] have "h \<in> fst ` set (ring_s s) - set (vnode_hashes s name)"
          by simp
        then have "h \<in> fst ` set (fold AList.delete (vnode_hashes s name) (ring_s s))"
          by (simp only: keys_fold_delete)
        then show ?thesis by auto
      qed
      ultimately show ?thesis by (simp add: table_inv_def s')
    qed
  qed
qed

lemma reachable_table_inv: "reachable s \<Longrightarrow> table_inv s"
  by (induction rule: reachable.induct)
     (simp_all add: New_table_inv Add_table_inv RemoveByName_table_inv)

lemma to_int_small:
  assumes "uint x < 2 ^ 31"
  shows "to_int x = uint x"
proof -
  have "to_int x = signed_take_bit 31 (uint x)"
    unfolding to_int_def signed_ucast_eq by simp
  also from assms have "\<dots> = uint x"
    by (intro signed_take_bit_int_eq_self) (simp_all add: order_trans [of _ 0])
  finally show ?thesis .
qed


text \<open>
  Claim C6. On every reachable ring with at least one member, \<^verbatim>\<open>LocateKey\<close> returns
  the entry of the partition table at the partition id of the key; on a ring without
  members it returns the null pointer; and for a partition count below \<open>2 ^ 31\<close>
  that id is the hash of the key modulo the partition count.
\<close>

theorem LocateKey_reads_partition_table:
  assumes "reachable s"
  shows "(members_s s \<noteq> [] \<longrightarrow> LocateKey s key = map_of (partitions_s s) (GetPartitionID s key))
    \<and> (members_s s = [] \<longrightarrow> LocateKey s key = None)
    \<and> (0 < uint (partition_count_s s) \<and> uint (partition_count_s s) < 2 ^ 31 \<longrightarrow>
         GetPartitionID s key = uint (Sum64 s key) mod uint (partition_count_s s))"
proof -
  from reachable_table_inv [OF assms] have t: "table_inv s" .
  have "GetPartitionID s key = uint (Sum64 s key) mod uint (partition_count_s s)"
    if "0 < uint (partition_count_s s)" and "uint (partition_count_s s) < 2 ^ 31"
  proof -
    from that(1) have "uint (Sum64 s key) mod uint (partition_count_s s) < uint (partition_count_s s)"
      by (rule pos_mod_bound)
    with that(2) have "uint (Sum64 s key mod partition_count_s s) < 2 ^ 31"
      by (simp only: uint_mod)
    from to_int_small [OF this] show ?thesis by (simp only: GetPartitionID_def uint_mod)
  qed
  moreover from t have "LocateKey s key = map_of (partitions_s s) (GetPartitionID s key)"
    by (cases "partitions_s s") (auto simp: table_inv_def LocateKey_def GetPartitionOwner_def)
  moreover from t have "members_s s = [] \<Longrightarrow> LocateKey s key = None"
    by (simp add: table_inv_def LocateKey_def GetPartitionOwner_def)
  ultimately show ?thesis by blast
qed

section \<open>Closest members\<close>

subsection \<open>The replica walk\<close>











section \<open>Idempotence\<close>

text \<open>
  Claim C8. \<^verbatim>\<open>Add\<close> of a registered name and \<^verbatim>\<open>RemoveByName\<close> of an unregistered name
  return without an exception and leave the whole object, hence registry, ring, sorted
  array, partition table and load map, as it was.
\<close>

theorem Add_existing_RemoveByName_absent_noop:
  "(m \<in> set (members_s s) \<longrightarrow> Add m s = (None, s))
   \<and> (name \<notin> set (members_s s) \<longrightarrow> RemoveByName name s = (None, s))"
  by (simp add: Add_def RemoveByName_def)

section \<open>Partition keys\<close>

lemma byte_of_part_id:
  "(ucast (drop_bit (i * 8) (p :: u64) AND 0xFF) :: u8) = word_of_nat (unat p div 2 ^ (8 * i) mod 2 ^ 8)"
proof -
  have m: "(0xFF :: u64) = mask 8" by (simp add: mask_eq_exp_minus_1)
  have "(ucast (drop_bit (i * 8) p AND 0xFF) :: u8) = ucast (drop_bit (i * 8) p)"
    unfolding m by (rule bit_word_eqI) (auto simp add: bit_simps)
  also have "\<dots> = word_of_nat (unat (drop_bit (i * 8) p))"
    by simp
  also have "unat (drop_bit (i * 8) p) = unat p div 2 ^ (8 * i)"
    by (simp only: unat_drop_bit_eq) (simp add: drop_bit_eq_div mult.commute)
  also have "(word_of_nat (unat p div 2 ^ (8 * i)) :: u8) = word_of_nat (unat p div 2 ^ (8 * i) mod 2 ^ 8)"
    by (simp add: word_of_nat_eq_iff take_bit_eq_mod)
  finally show ?thesis .
qed

lemma part_id_bytes_spec: "part_id_bytes p = le8_spec p"
  unfolding part_id_bytes_def le8_spec_def
  by (rule map_cong [OF refl]) (rule byte_of_part_id)


text \<open>
  Claim C9. The bytes hashed for a partition id are its eight-byte little-endian
  encoding, and both placement paths (the step of \<^verbatim>\<open>DistributePartitions\<close> and the step
  of \<^verbatim>\<open>CalculatePartitionsWithRingAndMemberCount\<close>) start their walk at the position
  found for the hash of exactly these bytes.
\<close>

theorem partition_key_little_endian: 
  "part_id_bytes p = le8_spec p
   \<and> DistributePartitions_step s p acc =
       DistributeWithLoad s (to_int p) (start_index (sorted_set_s s) (Sum64 s (le8_spec p))) acc
   \<and> Calculate_step s ring ss avg p acc =
       (case fst (walk OutOfRange avg ring ss (snd acc) (start_index ss (Sum64 s (le8_spec p))) 0) of
          Inl e \<Rightarrow> Inl e
        | Inr (m, loads') \<Rightarrow> Inr (AList.update (to_int p) m (fst acc), loads'))"
  by (simp add: part_id_bytes_spec [symmetric] DistributePartitions_step_def Calculate_step_def Let_def)

section \<open>Evaluating the example rings\<close>

text \<open>
  The example rings are the rings that the operations produce: each equation below is
  obtained by evaluating the operation and comparing the fields.
\<close>

lemma New_config_kept:
  assumes "New ms cfg = Inr s" and "partition_count cfg \<noteq> 0" and "replication_factor cfg \<noteq> 0"
    and "load cfg \<noteq> 0"
  shows "config_s s = cfg"
proof (cases "ms = []")
  case True
  with assms show ?thesis by (auto simp: New_def Let_def split: option.splits)
next
  case False
  with assms obtain s1 where "DistributePartitions (fold InitMember ms s1) = Inr s" and "config_s s1 = cfg"
    by (auto simp: New_def Let_def split: option.splits)
  then show ?thesis
    by (auto simp: DistributePartitions_def split: sum.splits prod.splits)
qed

lemma New_pinned:
  assumes "result_fields (New ms cfg) = Inr (data_fields t)" and "config_s t = cfg"
    and "partition_count cfg \<noteq> 0" and "replication_factor cfg \<noteq> 0" and "load cfg \<noteq> 0"
  shows "New ms cfg = Inr t"
proof -
  from assms(1) obtain s where s: "New ms cfg = Inr s" and d: "data_fields s = data_fields t"
    by (auto simp: result_fields_def split: sum.splits)
  from New_config_kept [OF s assms(3-5)] assms(2) have "config_s s = config_s t" by simp
  from Consistent_eqI [OF this d] s show ?thesis by simp
qed


lemma New_ab_ring: "New [''A'', ''B''] (fnv_config 4 2 (5 / 4)) = Inr ab_ring"
proof (rule New_pinned)
  show "result_fields (New [''A'', ''B''] (fnv_config 4 2 (5 / 4))) = Inr (data_fields ab_ring)"
    by code_simp
qed (simp_all add: ab_ring_def fnv_config_def)



lemma New_empty_ring: "New [] (fnv_config 4 1 (5 / 4)) = Inr empty_ring"
proof (rule New_pinned)
  show "result_fields (New [] (fnv_config 4 1 (5 / 4))) = Inr (data_fields empty_ring)"
    by code_simp
qed (simp_all add: empty_ring_def fnv_config_def)





text \<open>
  The hashes behind the example rings: of the member names, of their virtual-node keys, of
  the four partition ids and of the key \<open>k3\<close>. Every partition hash lies above every
  virtual-node hash, so every placement walk of the examples starts at position 0.
\<close>

lemma example_hashes:
  "map (\<lambda>name. FNV_Sum64 (string_bytes name)) [''A'', ''B'', ''D'']
     = [12638222384927744748, 12638225683462629381, 12638219086392860115]"
  "map (\<lambda>i. FNV_Sum64 (BuildVirtualNodeKey ''A'' i)) [0, 1] = [650930707964705748, 650931807476333959]"
  "map (\<lambda>i. FNV_Sum64 (BuildVirtualNodeKey ''B'' i)) [0, 1] = [653870802057974287, 653869702546346076]"
  "map (\<lambda>i. FNV_Sum64 (BuildVirtualNodeKey ''D'' i)) [0, 1] = [648096166987745465, 648095067476117254]"
  "map (\<lambda>p. FNV_Sum64 (part_id_bytes p)) [0, 1, 2, 3]
     = [12161962213042174405, 9929646806074584996, 16626593026977353223, 14394277620009763814]"
  "FNV_Sum64 (string_bytes ''k3'') = 629955324637487451"
  "FNV_Sum64 (string_bytes ''k3'') mod 4 = 3"
  by code_simp+

text \<open>
  What a throwing mutation leaves behind. \<^verbatim>\<open>RemoveByName\<close> computes the new placement
  before it touches the object, so a failure leaves the object as it was; \<^verbatim>\<open>Add\<close>
  registers the member and inserts its virtual nodes first, and nothing undoes that when
  the placement throws: only the partition table and the load map are as before.
\<close>

lemma RemoveByName_failure_atomic:
  "RemoveByName name s = (Some e, s') \<Longrightarrow> s' = s"
  by (auto simp: RemoveByName_def Let_def split: if_splits sum.splits prod.splits)

lemma Add_failure_effects:
  assumes "Add m s = (Some e, s')"
  shows "m \<notin> set (members_s s)" and "members_s s' = members_s s @ [m]"
    and "partitions_s s' = partitions_s s" and "loads_s s' = loads_s s"
    and "ring_s s' = fold (\<lambda>h r. AList.update h m r) (vnode_hashes s m) (ring_s s)"
    and "sorted_set_s s' = sort (sorted_set_s s @ vnode_hashes s m)"
proof -
  from assms have n: "m \<notin> set (members_s s)"
    by (auto simp: Add_def split: if_splits)
  with assms have s': "s' = AddToRing m (s\<lparr>members_s := members_s s @ [m]\<rparr>)"
    by (auto simp: Add_def Let_def split: sum.splits prod.splits)
  have hs: "vnode_hashes (s\<lparr>members_s := members_s s @ [m]\<rparr>) m = vnode_hashes s m"
    by (rule vnode_hashes_config) simp
  show "m \<notin> set (members_s s)" by (rule n)
  show "members_s s' = members_s s @ [m]" "partitions_s s' = partitions_s s"
    "loads_s s' = loads_s s"
    by (simp_all add: s')
  show "ring_s s' = fold (\<lambda>h r. AList.update h m r) (vnode_hashes s m) (ring_s s)"
    by (simp add: s' hs)
  show "sorted_set_s s' = sort (sorted_set_s s @ vnode_hashes s m)"
    by (simp add: s' AddToRing_def Let_def hs)
qed

section \<open>Claims settled on the example rings\<close>

text \<open>
  Claim C1 fails on the code. The configuration \<open>P = 7\<close>, \<open>R = 4\<close>, \<open>L = 1.25\<close> with
  three members passes \<^verbatim>\<open>ValidateConfig\<close> (the cap \<open>\<lceil>35 / 12\<rceil> = 3\<close> is at most \<open>2 R = 8\<close>),
  and the constructor then throws \<^verbatim>\<open>InsufficientSpaceException\<close>: the walk of
  \<^verbatim>\<open>DistributeWithLoad\<close> compares with \<^verbatim>\<open>AverageLoad()\<close>, which is \<open>35 / 12\<close> without
  the ceiling, so no member takes a third partition and three members hold six of seven.
\<close>

theorem construction_fails_after_validation:
  "ValidateConfig 3 (fnv_config 7 4 (5 / 4)) = None
   \<and> New [''A'', ''B'', ''C''] (fnv_config 7 4 (5 / 4)) = Inl InsufficientSpace"
proof
  show "ValidateConfig 3 (fnv_config 7 4 (5 / 4)) = None"
    by code_simp
  have "result_fields (New [''A'', ''B'', ''C''] (fnv_config 7 4 (5 / 4))) = Inl InsufficientSpace"
    by code_simp
  then show "New [''A'', ''B'', ''C''] (fnv_config 7 4 (5 / 4)) = Inl InsufficientSpace"
    by (auto simp: result_fields_def split: sum.splits)
qed



text \<open>
  Claim C4 fails on the code. On the ring constructed from \<open>A\<close> and \<open>B\<close> the key
  \<open>k3\<close> belongs to a partition of \<open>B\<close>, and \<^verbatim>\<open>GetClosestN\<close> returns \<open>A\<close> first: the
  walk starts at the position found for the hash of the owner's name, which is not a
  virtual node of the owner.
\<close>

theorem closest_first_not_primary:
  "New [''A'', ''B''] (fnv_config 4 2 (5 / 4)) = Inr ab_ring
   \<and> LocateKey ab_ring (string_bytes ''k3'') = Some ''B''
   \<and> GetClosestN ab_ring (string_bytes ''k3'') 1 = Some (Inr [''A''])
   \<and> GetClosestN ab_ring (string_bytes ''k3'') 2 = Some (Inr [''A'', ''B''])"
proof (intro conjI)
  show "New [''A'', ''B''] (fnv_config 4 2 (5 / 4)) = Inr ab_ring" by (rule New_ab_ring)
  show "LocateKey ab_ring (string_bytes ''k3'') = Some ''B''" by code_simp
  show "GetClosestN ab_ring (string_bytes ''k3'') 1 = Some (Inr [''A''])" by code_simp
  show "GetClosestN ab_ring (string_bytes ''k3'') 2 = Some (Inr [''A'', ''B''])" by code_simp
qed



text \<open>
  Witness for claim C6: a reachable ring with two members and a reachable empty ring.
\<close>

theorem LocateKey_reads_partition_table_witness:
  "reachable ab_ring \<and> members_s ab_ring \<noteq> []
   \<and> LocateKey ab_ring (string_bytes ''k3'')
       = map_of (partitions_s ab_ring) (GetPartitionID ab_ring (string_bytes ''k3''))
   \<and> 0 < uint (partition_count_s ab_ring) \<and> uint (partition_count_s ab_ring) < 2 ^ 31
   \<and> GetPartitionID ab_ring (string_bytes ''k3'')
       = uint (Sum64 ab_ring (string_bytes ''k3'')) mod uint (partition_count_s ab_ring)
   \<and> reachable empty_ring \<and> members_s empty_ring = []
   \<and> LocateKey empty_ring (string_bytes ''k3'') = None"
proof -
  have r1: "reachable ab_ring" using New_ab_ring by (rule reachable_New)
  have r2: "reachable empty_ring" using New_empty_ring by (rule reachable_New)
  have m1: "members_s ab_ring \<noteq> []" and p1: "0 < uint (partition_count_s ab_ring)"
    "uint (partition_count_s ab_ring) < 2 ^ 31"
    by (simp_all add: ab_ring_def)
  have m2: "members_s empty_ring = []" by (simp add: empty_ring_def)
  from LocateKey_reads_partition_table [OF r1, of "string_bytes ''k3''"]
    LocateKey_reads_partition_table [OF r2, of "string_bytes ''k3''"] r1 r2 m1 m2 p1
  show ?thesis by blast
qed



text \<open>
  Witness for claim C8 on the ring constructed from \<open>A\<close> and \<open>B\<close>.
\<close>

theorem Add_existing_RemoveByName_absent_noop_witness:
  "''A'' \<in> set (members_s ab_ring) \<and> Add ''A'' ab_ring = (None, ab_ring)
   \<and> ''Z'' \<notin> set (members_s ab_ring) \<and> RemoveByName ''Z'' ab_ring = (None, ab_ring)"
proof -
  have m: "''A'' \<in> set (members_s ab_ring)" "''Z'' \<notin> set (members_s ab_ring)"
    by (simp_all add: ab_ring_def)
  with Add_existing_RemoveByName_absent_noop [of "''A''" ab_ring "''Z''"] show ?thesis by blast
qed


end
